theory Spec2Isabelle
  imports Main
begin

section \<open>Python primitives used by the sources\<close>

text \<open>
  Python strings are modelled as \<^typ>\<open>string\<close>, Python integers as \<^typ>\<open>int\<close>.
  Slicing and \<^verbatim>\<open>str.rfind\<close> accept any integer as a bound: a negative bound counts
  from the end of the sequence and is then clipped. The definitions below follow the
  index adjustment of CPython, because \<^verbatim>\<open>chunk_text\<close> can call both with a
  negative cursor.
\<close>

definition slice_index :: "int \<Rightarrow> int \<Rightarrow> nat" where
  \<comment> \<open>a slice bound \<open>i\<close> on a sequence of length \<open>n\<close>, clipped to \<open>0..n\<close>\<close>
  "slice_index n i = nat (if i < 0 then max 0 (i + n) else min i n)"

definition py_slice :: "'a list \<Rightarrow> int \<Rightarrow> int \<Rightarrow> 'a list" where
  \<comment> \<open>\<^verbatim>\<open>xs[i:j]\<close>\<close>
  "py_slice xs i j =
     (let lo = slice_index (int (length xs)) i;
          hi = slice_index (int (length xs)) j
      in take (hi - lo) (drop lo xs))"

definition py_slice_from :: "'a list \<Rightarrow> int \<Rightarrow> 'a list" where
  \<comment> \<open>\<^verbatim>\<open>xs[i:]\<close>\<close>
  "py_slice_from xs i = drop (slice_index (int (length xs)) i) xs"

definition py_slice_to :: "'a list \<Rightarrow> int \<Rightarrow> 'a list" where
  \<comment> \<open>\<^verbatim>\<open>xs[:j]\<close>\<close>
  "py_slice_to xs j = take (slice_index (int (length xs)) j) xs"

definition find_start :: "int \<Rightarrow> int \<Rightarrow> int" where
  \<comment> \<open>the \<^verbatim>\<open>start\<close> argument of \<^verbatim>\<open>rfind\<close>: only a negative value is adjusted\<close>
  "find_start n i = (if i < 0 then max 0 (i + n) else i)"

definition find_end :: "int \<Rightarrow> int \<Rightarrow> int" where
  "find_end n j = (if j > n then n else if j < 0 then max 0 (j + n) else j)"

fun rfind_scan :: "'a list \<Rightarrow> 'a list \<Rightarrow> nat \<Rightarrow> nat \<Rightarrow> int" where
  \<comment> \<open>tries the positions \<open>lo + k - 1\<close>, ..., \<open>lo\<close> and returns the first that matches\<close>
  "rfind_scan s sub lo 0 = - 1"
| "rfind_scan s sub lo (Suc k) =
     (if take (length sub) (drop (lo + k) s) = sub then int (lo + k)
      else rfind_scan s sub lo k)"

definition py_rfind :: "'a list \<Rightarrow> 'a list \<Rightarrow> int \<Rightarrow> int \<Rightarrow> int" where
  \<comment> \<open>\<^verbatim>\<open>s.rfind(sub, start, end)\<close>: the highest index of a match that lies within
      the adjusted bounds, or \<open>-1\<close>\<close>
  "py_rfind s sub start end =
     (let n = int (length s);
          lo = find_start n start;
          hi = find_end n end
      in if hi - lo < int (length sub) then - 1
         else rfind_scan s sub (nat lo) (Suc (nat (hi - lo - int (length sub)))))"

fun py_join :: "'a list \<Rightarrow> 'a list list \<Rightarrow> 'a list" where
  \<comment> \<open>\<^verbatim>\<open>sep.join(xs)\<close>\<close>
  "py_join sep [] = []"
| "py_join sep [x] = x"
| "py_join sep (x # y # ys) = x @ sep @ py_join sep (y # ys)"

definition is_space :: "char \<Rightarrow> bool" where
  \<comment> \<open>\<^verbatim>\<open>str.isspace\<close> on the code points below 256: tab, line feed, vertical tab, form
      feed, carriage return, the four separators 28 to 31, space, NEL and no-break space\<close>
  "is_space c =
     (let k = of_char c :: nat
      in (9 \<le> k \<and> k \<le> 13) \<or> (28 \<le> k \<and> k \<le> 32) \<or> k = 133 \<or> k = 160)"

fun split_scan :: "string \<Rightarrow> string \<Rightarrow> string list" where
  \<comment> \<open>\<open>w\<close> is the word read so far\<close>
  "split_scan w [] = (if w = [] then [] else [w])"
| "split_scan w (c # cs) =
     (if is_space c then (if w = [] then split_scan [] cs else w # split_scan [] cs)
      else split_scan (w @ [c]) cs)"

definition py_split :: "string \<Rightarrow> string list" where
  \<comment> \<open>\<^verbatim>\<open>text.split()\<close>: the maximal runs of non-whitespace characters, in order\<close>
  "py_split text = split_scan [] text"

definition py_lstrip :: "string \<Rightarrow> string" where
  "py_lstrip text = dropWhile is_space text"

definition py_rstrip :: "string \<Rightarrow> string" where
  "py_rstrip text = rev (dropWhile is_space (rev text))"

definition py_strip :: "string \<Rightarrow> string" where
  \<comment> \<open>\<^verbatim>\<open>text.strip()\<close>: whitespace removed at both ends\<close>
  "py_strip text = py_rstrip (py_lstrip text)"

section \<open>TextProcessor\<close>

text \<open>
  \<^verbatim>\<open>chunk_text\<close> appends \<^verbatim>\<open>text[start:end]\<close> to its result in every iteration. The
  model appends a \<open>chunk\<close> that also records the cursor values \<open>start\<close> and \<open>end\<close> the
  slice was taken with (the offsets of the data model), and \<open>chunk_text\<close> returns the
  texts alone, as the source does. The \<^verbatim>\<open>while\<close> loop may run forever, so it is a
  partial function: \<open>None\<close> means that the call never returns.
\<close>

record chunk =
  start_offset :: int
  end_offset :: int
  body :: string

definition window_end :: "string \<Rightarrow> int \<Rightarrow> int \<Rightarrow> int" where
  \<comment> \<open>the value of \<^verbatim>\<open>end\<close> when the slice is taken (lines 92 to 99)\<close>
  "window_end text start chunk_size =
     (let end = start + chunk_size
      in if end < int (length text)
         then (let sentence_end = py_rfind text ''. '' start end
               in if sentence_end > start then sentence_end + 1 else end)
         else end)"

definition next_start :: "string \<Rightarrow> int \<Rightarrow> int \<Rightarrow> int" where
  \<comment> \<open>line 102\<close>
  "next_start text end overlap = (if end < int (length text) then end - overlap else end)"

partial_function (option)
  chunk_loop :: "string \<Rightarrow> int \<Rightarrow> int \<Rightarrow> int \<Rightarrow> chunk list \<Rightarrow> chunk list option"
where
  "chunk_loop text chunk_size overlap start chunks =
     (if start < int (length text)
      then chunk_loop text chunk_size overlap
             (next_start text (window_end text start chunk_size) overlap)
             (chunks @ [\<lparr>start_offset = start,
                         end_offset = window_end text start chunk_size,
                         body = py_slice text start (window_end text start chunk_size)\<rparr>])
      else Some chunks)"

declare chunk_loop.simps [code]

definition chunk_spans :: "string \<Rightarrow> int \<Rightarrow> int \<Rightarrow> chunk list option" where
  "chunk_spans text chunk_size overlap =
     (if int (length text) \<le> chunk_size
      then Some [\<lparr>start_offset = 0, end_offset = int (length text), body = text\<rparr>]
      else chunk_loop text chunk_size overlap 0 [])"

definition chunk_text :: "string \<Rightarrow> int \<Rightarrow> int \<Rightarrow> string list option" where
  "chunk_text text chunk_size overlap = map_option (map body) (chunk_spans text chunk_size overlap)"

definition clean_text :: "string \<Rightarrow> string" where
  "clean_text text = py_strip (py_join '' '' (py_split text))"

text \<open>
  The contract of the text cleaner in the words of the specification, for comparison
  with \<open>clean_text\<close>: every run of whitespace becomes one space, then the whitespace at
  both ends is removed.
\<close>

function collapse_runs :: "string \<Rightarrow> string" where
  "collapse_runs [] = []"
| "collapse_runs (c # cs) =
     (if is_space c then CHR '' '' # collapse_runs (dropWhile is_space cs)
      else c # collapse_runs cs)"
  by pat_completeness auto
termination
  by (relation "measure length") (auto simp add: length_dropWhile_le less_Suc_eq_le)

definition spec_clean :: "string \<Rightarrow> string" where
  "spec_clean text = py_strip (collapse_runs text)"

section \<open>Context assembly (app.py)\<close>

text \<open>
  \<^verbatim>\<open>main\<close> joins the texts of the loaded documents with a blank line (lines 182 to 184)
  and \<^verbatim>\<open>OllamaAssistant.chat\<close> cuts the result to 3000 characters and appends a marker
  (lines 48 and 49).
\<close>

definition join_pdf_texts :: "string list \<Rightarrow> string" where
  "join_pdf_texts pdf_texts =
     (if pdf_texts \<noteq> [] then py_join ''\<newline>\<newline>'' pdf_texts else [])"

definition truncation_marker :: string where
  "truncation_marker = ''\<newline>[Document truncated...]''"

definition truncate_context :: "string \<Rightarrow> string" where
  "truncate_context pdf_context =
     (if length pdf_context > 3000 then py_slice_to pdf_context 3000 @ truncation_marker
      else pdf_context)"

definition assemble_context :: "string list \<Rightarrow> string" where
  "assemble_context pdf_texts = truncate_context (join_pdf_texts pdf_texts)"

section \<open>ConversationManager\<close>

text \<open>
  A message is a dictionary with the keys \<^verbatim>\<open>role\<close> and \<^verbatim>\<open>content\<close>. Python lists and
  dictionaries are objects, and a list holds references to its elements. The heap maps
  the address of a list to the addresses of its elements and the address of a
  dictionary to its contents; \<open>next_free\<close> is the next unused address. The manager holds
  a reference to its list: \<^verbatim>\<open>append\<close> changes that list in place, a slice and \<^verbatim>\<open>copy\<close>
  build a new list of the same references (a shallow copy), and the dictionary literal
  of line 246 builds a new dictionary.
\<close>

record message =
  role :: string
  content :: string

type_synonym addr = nat

record py_heap =
  lists :: "addr \<Rightarrow> addr list"
  dicts :: "addr \<Rightarrow> message"
  next_free :: addr

record conversation_manager =
  messages :: addr
  max_history :: int

definition new_list :: "addr list \<Rightarrow> py_heap \<Rightarrow> addr \<times> py_heap" where
  "new_list xs h =
     (next_free h, h\<lparr>lists := (lists h)(next_free h := xs), next_free := Suc (next_free h)\<rparr>)"

definition new_dict :: "message \<Rightarrow> py_heap \<Rightarrow> addr \<times> py_heap" where
  "new_dict m h =
     (next_free h, h\<lparr>dicts := (dicts h)(next_free h := m), next_free := Suc (next_free h)\<rparr>)"

definition update_list :: "addr \<Rightarrow> (addr list \<Rightarrow> addr list) \<Rightarrow> py_heap \<Rightarrow> py_heap" where
  \<comment> \<open>any change of the list at address \<open>a\<close> in place: append, pop, item assignment,
      sort, clear\<close>
  "update_list a f h = h\<lparr>lists := (lists h)(a := f (lists h a))\<rparr>"



definition read_list :: "py_heap \<Rightarrow> addr \<Rightarrow> message list" where
  \<comment> \<open>the messages that a reader of the list at address \<open>a\<close> sees\<close>
  "read_list h a = map (dicts h) (lists h a)"

definition init :: "int \<Rightarrow> py_heap \<Rightarrow> conversation_manager \<times> py_heap" where
  "init cap h =
     (let (a, h') = new_list [] h in (\<lparr>messages = a, max_history = cap\<rparr>, h'))"

definition add_message ::
  "string \<Rightarrow> string \<Rightarrow> conversation_manager \<times> py_heap \<Rightarrow> conversation_manager \<times> py_heap" where
  "add_message r c st =
     (let (self, h) = st;
          (d, h0) = new_dict \<lparr>role = r, content = c\<rparr> h;
          h1 = update_list (messages self) (\<lambda>xs. xs @ [d]) h0
      in if int (length (lists h1 (messages self))) > max_history self
         then (let (a, h2) = new_list (py_slice_from (lists h1 (messages self))
                                         (- max_history self)) h1
               in (self\<lparr>messages := a\<rparr>, h2))
         else (self, h1))"

definition get_history :: "conversation_manager \<times> py_heap \<Rightarrow> addr \<times> py_heap" where
  \<comment> \<open>\<^verbatim>\<open>self.messages.copy()\<close>: a new list with the references of the old one\<close>
  "get_history st = (let (self, h) = st in new_list (lists h (messages self)) h)"

definition allocated :: "conversation_manager \<times> py_heap \<Rightarrow> bool" where
  \<comment> \<open>the list of the manager and the dictionaries in it live at addresses that have
      been handed out\<close>
  "allocated st =
     (let (self, h) = st
      in messages self < next_free h \<and> (\<forall>a \<in> set (lists h (messages self)). a < next_free h))"

definition empty_heap :: py_heap where
  "empty_heap = \<lparr>lists = (\<lambda>a. []), dicts = (\<lambda>a. \<lparr>role = [], content = []\<rparr>), next_free = 0\<rparr>"

definition stored :: "conversation_manager \<times> py_heap \<Rightarrow> message list" where
  \<comment> \<open>the messages in \<^verbatim>\<open>self.messages\<close>\<close>
  "stored st = (let (self, h) = st in read_list h (messages self))"

fun add_all ::
  "(string \<times> string) list \<Rightarrow> conversation_manager \<times> py_heap \<Rightarrow> conversation_manager \<times> py_heap" where
  \<comment> \<open>a sequence of \<^verbatim>\<open>add_message\<close> calls\<close>
  "add_all [] st = st"
| "add_all ((r, c) # rest) st = add_all rest (add_message r c st)"

section \<open>AIClient.ask\_question\<close>

definition get_system_prompt :: string where
  \<open>get_system_prompt =
     ''You are an intelligent PDF assistant with the following capabilities:\<newline>'' @
     ''\<newline>'' @
     ''1. **Answer Questions**: Provide accurate answers based on the PDF content\<newline>'' @
     ''2. **Cite Sources**: Reference specific sections or pages when answering\<newline>'' @
     ''3. **Summarize**: Create concise summaries of document sections\<newline>'' @
     ''4. **Extract Information**: Find and extract specific data points\<newline>'' @
     ''5. **Compare**: Compare information across multiple documents\<newline>'' @
     ''\<newline>'' @
     ''Guidelines:\<newline>'' @
     ''- Always base answers on the provided PDF content\<newline>'' @
     ''- If information is not in the document, clearly state: "This information is not available in the provided document(s)."\<newline>'' @
     ''- Use markdown formatting for clarity (headers, lists, bold, etc.)\<newline>'' @
     ''- Be concise but thorough\<newline>'' @
     ''- Cite page numbers when possible\<newline>'' @
     ''\<newline>'' @
     ''Remember: Your knowledge is limited to the provided PDF content only.''\<close>

definition ask_question_messages :: "string \<Rightarrow> string \<Rightarrow> message list option \<Rightarrow> message list" where
  \<comment> \<open>the list that \<^verbatim>\<open>ask_question\<close> passes to \<^verbatim>\<open>chat_completion\<close>; \<open>None\<close> and the
      empty list are both false in the test of line 219\<close>
  "ask_question_messages question pdf_context chat_history =
     (let messages0 = [\<lparr>role = ''system'', content = get_system_prompt\<rparr>,
                       \<lparr>role = ''user'', content = ''PDF Content:\<newline>\<newline>'' @ pdf_context\<rparr>];
          messages1 = (case chat_history of
                         None \<Rightarrow> messages0
                       | Some hist \<Rightarrow> if hist \<noteq> [] then messages0 @ py_slice_from hist (- 10)
                                      else messages0)
      in messages1 @ [\<lparr>role = ''user'', content = question\<rparr>])"


section \<open>Properties of the primitives\<close>

lemma rfind_scan_range:
  "rfind_scan s sub lo k = - 1 \<or>
   (\<exists>r. rfind_scan s sub lo k = int r \<and> lo \<le> r \<and> r < lo + k \<and>
        take (length sub) (drop r s) = sub)"
proof (induction k)
  case 0
  then show ?case by simp
next
  case (Suc k)
  show ?case
  proof (cases "take (length sub) (drop (lo + k) s) = sub")
    case True
    then have "rfind_scan s sub lo (Suc k) = int (lo + k)" by simp
    with True show ?thesis by (intro disjI2 exI[of _ "lo + k"]) simp
  next
    case False
    with Suc show ?thesis by auto
  qed
qed

lemma rfind_scan_none:
  "rfind_scan s sub lo k = - 1 \<Longrightarrow> lo \<le> j \<Longrightarrow> j < lo + k \<Longrightarrow>
   take (length sub) (drop j s) \<noteq> sub"
proof (induction k)
  case 0
  then show ?case by simp
next
  case (Suc k)
  then show ?case by (cases "j = lo + k") (auto split: if_splits)
qed

lemma rfind_scan_rightmost:
  "rfind_scan s sub lo k = int r \<Longrightarrow> r < j \<Longrightarrow> j < lo + k \<Longrightarrow>
   take (length sub) (drop j s) \<noteq> sub"
proof (induction k)
  case 0
  then show ?case by simp
next
  case (Suc k)
  then show ?case by (cases "j = lo + k") (auto split: if_splits)
qed

lemma find_start_nonneg: "0 \<le> n \<Longrightarrow> 0 \<le> find_start n i"
  by (simp add: find_start_def)

lemma find_end_le: "0 \<le> n \<Longrightarrow> find_end n j \<le> n"
  by (simp add: find_end_def)

lemma py_rfind_range:
  "py_rfind s sub a b = - 1 \<or>
   (\<exists>r. py_rfind s sub a b = int r \<and>
        find_start (int (length s)) a \<le> int r \<and>
        int r + int (length sub) \<le> find_end (int (length s)) b \<and>
        take (length sub) (drop r s) = sub)"
proof (cases "find_end (int (length s)) b - find_start (int (length s)) a < int (length sub)")
  case True
  then show ?thesis by (simp add: py_rfind_def)
next
  case False
  define lo where "lo = nat (find_start (int (length s)) a)"
  define k where "k = Suc (nat (find_end (int (length s)) b - find_start (int (length s)) a - int (length sub)))"
  have lo: "int lo = find_start (int (length s)) a"
    using find_start_nonneg[of "int (length s)" a] by (simp add: lo_def)
  have k: "int (lo + k) = find_end (int (length s)) b - int (length sub) + 1"
    using False lo by (simp add: k_def)
  have eq: "py_rfind s sub a b = rfind_scan s sub lo k"
    using False by (simp only: py_rfind_def Let_def lo_def k_def if_False)
  from rfind_scan_range[of s sub lo k] show ?thesis
  proof
    assume "rfind_scan s sub lo k = - 1"
    then show ?thesis by (simp add: eq)
  next
    assume "\<exists>r. rfind_scan s sub lo k = int r \<and> lo \<le> r \<and> r < lo + k \<and>
        take (length sub) (drop r s) = sub"
    then obtain r where r: "rfind_scan s sub lo k = int r" "lo \<le> r" "r < lo + k"
      "take (length sub) (drop r s) = sub" by blast
    from r(2) lo have "find_start (int (length s)) a \<le> int r" by linarith
    moreover from r(3) k have "int r + int (length sub) \<le> find_end (int (length s)) b" by linarith
    ultimately show ?thesis using r(1,4) eq by auto
  qed
qed

lemma py_rfind_lt_length: "py_rfind s ''. '' a b = - 1 \<or> py_rfind s ''. '' a b + 1 < int (length s)"
  using py_rfind_range[of s "''. ''" a b] find_end_le[of "int (length s)" b]
  by auto

lemma window_end_lt:
  assumes "0 < length t" and "start + chunk_size < int (length t)"
  shows "window_end t start chunk_size < int (length t)"
  using py_rfind_lt_length[of t start "start + chunk_size"] assms
  by (auto simp add: window_end_def Let_def)


lemma py_rfind_none:
  assumes "py_rfind s sub a b = - 1"
    and "find_start (int (length s)) a \<le> int j"
    and "int j + int (length sub) \<le> find_end (int (length s)) b"
  shows "take (length sub) (drop j s) \<noteq> sub"
proof -
  define lo where "lo = nat (find_start (int (length s)) a)"
  define k where "k = Suc (nat (find_end (int (length s)) b - find_start (int (length s)) a - int (length sub)))"
  have lo: "int lo = find_start (int (length s)) a"
    using find_start_nonneg[of "int (length s)" a] by (simp add: lo_def)
  have ge: "\<not> find_end (int (length s)) b - find_start (int (length s)) a < int (length sub)"
    using assms(2,3) by linarith
  then have eq: "py_rfind s sub a b = rfind_scan s sub lo k"
    by (simp only: py_rfind_def Let_def lo_def k_def if_False)
  have "lo \<le> j" using assms(2) lo by linarith
  moreover have "j < lo + k" using assms(3) ge lo by (simp add: k_def)
  ultimately show ?thesis using rfind_scan_none[of s sub lo k j] assms(1) eq by simp
qed

lemma py_rfind_rightmost:
  assumes "py_rfind s sub a b = int r"
    and "r < j"
    and "int j + int (length sub) \<le> find_end (int (length s)) b"
  shows "take (length sub) (drop j s) \<noteq> sub"
proof -
  define lo where "lo = nat (find_start (int (length s)) a)"
  define k where "k = Suc (nat (find_end (int (length s)) b - find_start (int (length s)) a - int (length sub)))"
  have lo: "int lo = find_start (int (length s)) a"
    using find_start_nonneg[of "int (length s)" a] by (simp add: lo_def)
  have ge: "\<not> find_end (int (length s)) b - find_start (int (length s)) a < int (length sub)"
    using assms(1) by (auto simp add: py_rfind_def Let_def split: if_splits)
  then have eq: "py_rfind s sub a b = rfind_scan s sub lo k"
    by (simp only: py_rfind_def Let_def lo_def k_def if_False)
  have "j < lo + k" using assms(3) ge lo by (simp add: k_def)
  then show ?thesis using rfind_scan_rightmost[of s sub lo k r j] assms(1,2) eq by simp
qed

section \<open>chunk\_text: parameters and termination\<close>

text \<open>
  A run of the loop whose cursor stays inside a set \<open>Q\<close> of values below the length of the
  text never returns.
\<close>

lemma chunk_loop_never_Some:
  assumes step: "\<And>s. Q s \<Longrightarrow> s < int (length t) \<and> Q (next_start t (window_end t s cs) ov)"
    and res: "chunk_loop t' cs' ov' s acc = Some y"
  shows "\<not> (t' = t \<and> cs' = cs \<and> ov' = ov \<and> Q s)"
proof (rule chunk_loop.raw_induct
    [where P = "\<lambda>t' cs' ov' s acc y. \<not> (t' = t \<and> cs' = cs \<and> ov' = ov \<and> Q s)", OF _ res])
  fix f t' cs' ov' s acc y
  assume IH: "\<And>t' cs' ov' s acc y. f t' cs' ov' s acc = Some y
      \<Longrightarrow> \<not> (t' = t \<and> cs' = cs \<and> ov' = ov \<and> Q s)"
    and body: "(if s < int (length t')
      then f t' cs' ov' (next_start t' (window_end t' s cs') ov')
         (acc @ [\<lparr>start_offset = s, end_offset = window_end t' s cs',
              body = py_slice t' s (window_end t' s cs')\<rparr>])
      else Some acc) = Some y"
  show "\<not> (t' = t \<and> cs' = cs \<and> ov' = ov \<and> Q s)"
  proof
    assume a: "t' = t \<and> cs' = cs \<and> ov' = ov \<and> Q s"
    with step have lt: "s < int (length t)" and q: "Q (next_start t (window_end t s cs) ov)"
      by blast+
    from body a lt have "f t cs ov (next_start t (window_end t s cs) ov)
         (acc @ [\<lparr>start_offset = s, end_offset = window_end t s cs,
              body = py_slice t s (window_end t s cs)\<rparr>]) = Some y"
      by simp
    from IH[OF this] q show False by simp
  qed
qed

lemma chunk_loop_diverges:
  assumes "\<And>s. Q s \<Longrightarrow> s < int (length t) \<and> Q (next_start t (window_end t s cs) ov)"
    and "Q s"
  shows "chunk_loop t cs ov s acc = None"
proof (cases "chunk_loop t cs ov s acc")
  case None then show ?thesis .
next
  case (Some y)
  from chunk_loop_never_Some[where Q = Q, OF assms(1) Some] assms(2) show ?thesis by simp
qed

text \<open>
  With \<open>chunk_size \<le> overlap\<close>, a non-negative overlap and a non-empty text longer than
  \<open>chunk_size\<close>, the cursor never reaches the end of the text.
\<close>

lemma chunk_text_degenerate_diverges:
  assumes "chunk_size \<le> overlap" and "0 \<le> overlap" and "chunk_size < int (length t)"
    and "t \<noteq> []"
  shows "chunk_text t chunk_size overlap = None"
proof -
  define Q where "Q s \<longleftrightarrow> s < int (length t) \<and> s + chunk_size < int (length t)" for s
  have step: "s < int (length t) \<and> Q (next_start t (window_end t s chunk_size) overlap)"
    if "Q s" for s
  proof -
    from that have s: "s < int (length t)" "s + chunk_size < int (length t)"
      by (simp_all add: Q_def)
    have pos: "0 < length t" using assms(4) by simp
    have w: "window_end t s chunk_size < int (length t)"
      by (rule window_end_lt[OF pos s(2)])
    then have "next_start t (window_end t s chunk_size) overlap = window_end t s chunk_size - overlap"
      by (simp add: next_start_def)
    with w assms s show ?thesis by (simp add: Q_def)
  qed
  have "Q 0" using assms by (simp add: Q_def)
  from chunk_loop_diverges[where Q = Q, OF step this]
  have "chunk_loop t chunk_size overlap 0 [] = None" by simp
  with assms(3) show ?thesis by (simp add: chunk_text_def chunk_spans_def)
qed

text \<open>
  Claim C1, as amended. \<^verbatim>\<open>chunk_text\<close> does not validate its parameters and has no error
  result. When \<open>chunk_size \<le> overlap\<close> and the text is no longer than \<open>chunk_size\<close>, the
  call returns the whole text as its only chunk.
\<close>

theorem chunk_text_degenerate_whole:
  assumes "chunk_size \<le> overlap" and "int (length t) \<le> chunk_size"
  shows "chunk_text t chunk_size overlap = Some [t]"
  using assms(2) by (simp add: chunk_text_def chunk_spans_def)

theorem chunk_text_degenerate_whole_witness:
  "(5::int) \<le> 7 \<and> int (length ''hello'') \<le> 5 \<and> chunk_text ''hello'' 5 7 = Some [''hello'']"
  using chunk_text_degenerate_whole[of 5 7 "''hello''"] by simp

text \<open>
  Claim C1 as stated fails: the call \<^verbatim>\<open>chunk_text("abc", 10, 10)\<close>, with the overlap equal to
  the chunk size, is not rejected; it returns one chunk.
\<close>

theorem chunk_text_degenerate_counterexample:
  "chunk_text ''abc'' 10 10 = Some [''abc'']"
  by (simp add: chunk_text_def chunk_spans_def)

text \<open>
  Claim C2 (termination on well-formed parameters) against the code: with
  \<open>chunk_size = 10\<close> and \<open>overlap = 2\<close> the call on the 14 characters \<^verbatim>\<open>xa. bcdefghijk\<close> never
  returns. The first window is cut after the period at index 2, the cursor moves to
  \<open>3 - 2 = 1\<close>, the second window is cut at the same period, and the cursor stays at 1.
\<close>

theorem chunk_text_loops_forever:
  "chunk_text ''xa. bcdefghijk'' 10 2 = None"
proof -
  have w0: "window_end ''xa. bcdefghijk'' 0 10 = 3" by code_simp
  have w1: "window_end ''xa. bcdefghijk'' 1 10 = 3" by code_simp
  have "chunk_loop ''xa. bcdefghijk'' 10 2 1 acc = None" for acc
    by (rule chunk_loop_diverges[where Q = "\<lambda>s. s = 1"]) (simp_all add: w1 next_start_def)
  then have "chunk_loop ''xa. bcdefghijk'' 10 2 0 [] = None"
    by (subst chunk_loop.simps) (simp add: w0 next_start_def)
  then show ?thesis by (simp add: chunk_text_def chunk_spans_def)
qed


text \<open>
  The loop returns whenever every iteration moves the cursor forward. This is the case
  for an overlap of 0 or 1 below the chunk size: a shortened window still ends at least
  two characters after its start.
\<close>

lemma chunk_loop_terminates:
  assumes adv: "\<And>s. s < int (length t) \<Longrightarrow> s < next_start t (window_end t s cs) ov"
  shows "\<exists>r. chunk_loop t cs ov s acc = Some r"
proof (induction "nat (int (length t) - s)" arbitrary: s acc rule: less_induct)
  case less
  show ?case
  proof (cases "s < int (length t)")
    case False
    then show ?thesis by (subst chunk_loop.simps) simp
  next
    case True
    let ?s' = "next_start t (window_end t s cs) ov"
    from adv[OF True] True have "nat (int (length t) - ?s') < nat (int (length t) - s)"
      by linarith
    from less[OF this] True show ?thesis by (subst chunk_loop.simps) simp
  qed
qed

lemma window_end_ge:
  "start + 2 \<le> window_end t start chunk_size \<or> window_end t start chunk_size = start + chunk_size"
  by (auto simp add: window_end_def Let_def)

lemma chunk_text_terminates_small_overlap:
  assumes "0 \<le> overlap" and "overlap \<le> 1" and "overlap < chunk_size"
  shows "\<exists>chunks. chunk_text t chunk_size overlap = Some chunks"
proof (cases "int (length t) \<le> chunk_size")
  case True
  then show ?thesis by (simp add: chunk_text_def chunk_spans_def)
next
  case False
  have "s < next_start t (window_end t s chunk_size) overlap" if "s < int (length t)" for s
    using window_end_ge[of s t chunk_size] assms that by (auto simp add: next_start_def)
  from chunk_loop_terminates[of t chunk_size overlap 0 "[]", OF this]
  show ?thesis using False by (auto simp add: chunk_text_def chunk_spans_def)
qed

section \<open>chunk\_text: coverage and offsets\<close>

text \<open>
  Claim C3 (the chunks cover the text) against the code: with \<open>chunk_size = 10\<close> and
  \<open>overlap = 3\<close> the call on the 14 characters \<^verbatim>\<open>a. bcdefghijkl\<close> returns the three chunks
  \<^verbatim>\<open>a.\<close>, the empty string and \<^verbatim>\<open>efghijkl\<close>. The characters at the indices 2 to 5 are in
  no chunk. The first window is cut after the period at index 1, the cursor becomes
  \<open>2 - 3 = -1\<close>, the slice \<^verbatim>\<open>text[-1:9]\<close> is empty, and the next cursor is \<open>9 - 3 = 6\<close>.
\<close>

theorem chunk_text_drops_characters:
  "chunk_text ''a. bcdefghijkl'' 10 3 = Some [''a.'', [], ''efghijkl'']"
  unfolding chunk_text_def chunk_spans_def by code_simp

text \<open>
  Claim C6 (the start and end offsets never decrease) against the code, on the same
  call: the recorded cursor pairs are \<open>(0, 2)\<close>, \<open>(-1, 9)\<close> and \<open>(6, 16)\<close>, so the second
  start lies before the first.
\<close>

theorem chunk_offsets_not_monotone:
  "map_option (map (\<lambda>c. (start_offset c, end_offset c))) (chunk_spans ''a. bcdefghijkl'' 10 3)
     = Some [(0, 2), (- 1, 9), (6, 16)]"
  by code_simp

section \<open>chunk\_text: the sentence boundary\<close>

lemma find_bounds_inside:
  assumes "0 \<le> a" and "0 \<le> b" and "b \<le> n"
  shows "find_start n a = a" and "find_end n b = b"
  using assms by (simp_all add: find_start_def find_end_def)

lemma if_thenI: "c \<Longrightarrow> a \<Longrightarrow> (if c then a else b)"
  by simp

lemma if_elseI: "\<not> c \<Longrightarrow> b \<Longrightarrow> (if c then a else b)"
  by simp

text \<open>
  Claim C8, as amended. Take an iteration with a non-negative cursor \<open>start\<close>, a positive
  \<open>chunk_size\<close> and a nominal end \<open>start + chunk_size\<close> before the end of the text. If the
  terminator (a period followed by a space) occurs at a position strictly after \<open>start\<close>
  and wholly before the nominal end, the window ends right after the period of the
  rightmost such occurrence: the period is included, the space is not. Otherwise the
  nominal end is kept.
\<close>

theorem window_end_sentence_boundary:
  assumes "0 \<le> start" and "0 < chunk_size" and "start + chunk_size < int (length t)"
  shows "if \<exists>i. start < int i \<and> int i + 2 \<le> start + chunk_size \<and> take 2 (drop i t) = ''. ''
         then \<exists>i. start < int i \<and> int i + 2 \<le> start + chunk_size \<and> take 2 (drop i t) = ''. '' \<and>
                (\<forall>j. i < j \<and> int j + 2 \<le> start + chunk_size \<longrightarrow> take 2 (drop j t) \<noteq> ''. '') \<and>
                window_end t start chunk_size = int i + 1
         else window_end t start chunk_size = start + chunk_size"
proof -
  let ?e = "start + chunk_size"
  let ?se = "py_rfind t ''. '' start ?e"
  have fs: "find_start (int (length t)) start = start"
    and fe: "find_end (int (length t)) ?e = ?e"
    using assms by (simp_all add: find_start_def find_end_def)
  have we: "window_end t start chunk_size = (if ?se > start then ?se + 1 else ?e)"
    using assms(3) by (simp add: window_end_def Let_def)
  have len2: "length ''. '' = 2" by simp
  from py_rfind_range[of t "''. ''" start ?e, unfolded len2 fs fe]
  consider (none) "?se = - 1"
    | (found) r where "?se = int r" "start \<le> int r" "int r + 2 \<le> ?e" "take 2 (drop r t) = ''. ''"
    by auto
  then show ?thesis
  proof cases
    case none
    have "take 2 (drop i t) \<noteq> ''. ''" if "start < int i" "int i + 2 \<le> ?e" for i
      using py_rfind_none[of t "''. ''" start ?e i, unfolded len2 fs fe] none that by simp
    then have "\<not> (\<exists>i. start < int i \<and> int i + 2 \<le> ?e \<and> take 2 (drop i t) = ''. '')"
      by blast
    moreover have "window_end t start chunk_size = ?e"
      using we none assms(1) by simp
    ultimately show ?thesis by (rule if_elseI)
  next
    case found
    have right: "take 2 (drop j t) \<noteq> ''. ''" if "r < j" "int j + 2 \<le> ?e" for j
      using py_rfind_rightmost[of t "''. ''" start ?e r j, unfolded len2 fe] found(1) that by simp
    show ?thesis
    proof (cases "start < int r")
      case True
      then have "window_end t start chunk_size = int r + 1"
        using we found(1) by simp
      with True found right
      have "\<exists>i. start < int i \<and> int i + 2 \<le> ?e \<and> take 2 (drop i t) = ''. '' \<and>
                (\<forall>j. i < j \<and> int j + 2 \<le> ?e \<longrightarrow> take 2 (drop j t) \<noteq> ''. '') \<and>
                window_end t start chunk_size = int i + 1"
        by (intro exI[of _ r]) simp
      moreover from this have "\<exists>i. start < int i \<and> int i + 2 \<le> ?e \<and> take 2 (drop i t) = ''. ''"
        by blast
      ultimately show ?thesis by (rule if_thenI[rotated])
    next
      case False
      with found(2) have eq: "int r = start" by simp
      have "\<not> (\<exists>i. start < int i \<and> int i + 2 \<le> ?e \<and> take 2 (drop i t) = ''. '')"
        using right eq by auto
      moreover have "window_end t start chunk_size = ?e"
        using we found(1) False by simp
      ultimately show ?thesis by (rule if_elseI)
    qed
  qed
qed

theorem window_end_sentence_boundary_witness:
  "(0::int) \<le> 0 \<and> (0::int) < 10 \<and> 0 + 10 < int (length ''ab. cdefghijklm'') \<and>
   (\<exists>i. (0::int) < int i \<and> int i + 2 \<le> 0 + 10 \<and> take 2 (drop i ''ab. cdefghijklm'') = ''. '') \<and>
   window_end ''ab. cdefghijklm'' 0 10 = 3"
proof -
  have ex: "\<exists>i. (0::int) < int i \<and> int i + 2 \<le> 0 + 10 \<and> take 2 (drop i ''ab. cdefghijklm'') = ''. ''"
    by (intro exI[of _ 2]) simp
  have w: "window_end ''ab. cdefghijklm'' 0 10 = 3" by code_simp
  from window_end_sentence_boundary[of 0 10 "''ab. cdefghijklm''"] ex
  have "\<exists>i. (0::int) < int i \<and> int i + 2 \<le> 0 + 10 \<and> take 2 (drop i ''ab. cdefghijklm'') = ''. '' \<and>
                (\<forall>j. i < j \<and> int j + 2 \<le> 0 + 10 \<longrightarrow> take 2 (drop j ''ab. cdefghijklm'') \<noteq> ''. '') \<and>
                window_end ''ab. cdefghijklm'' 0 10 = int i + 1"
    by simp
  with ex w show ?thesis by simp
qed

text \<open>
  Claim C8 as stated fails: the window does not end after the two characters of the
  terminator. In \<^verbatim>\<open>ab. cdefghijklm\<close> with \<open>chunk_size = 10\<close> the terminator is found at
  index 2, the window ends at 3 and not at 4, and the chunk is \<^verbatim>\<open>ab.\<close> without the space.
\<close>

theorem window_end_before_space_counterexample:
  "py_rfind ''ab. cdefghijklm'' ''. '' 0 10 = 2 \<and>
   window_end ''ab. cdefghijklm'' 0 10 \<noteq> 2 + int (length ''. '') \<and>
   py_slice ''ab. cdefghijklm'' 0 (window_end ''ab. cdefghijklm'' 0 10) = ''ab.''"
  by code_simp


section \<open>clean\_text\<close>

lemma split_scan_nonempty: "w \<noteq> [] \<Longrightarrow> split_scan w cs \<noteq> []"
  by (induction cs arbitrary: w) auto

lemma split_scan_skip: "split_scan [] cs = split_scan [] (dropWhile is_space cs)"
  by (induction cs) auto

lemma py_rstrip_Nil: "py_rstrip [] = []"
  by (simp add: py_rstrip_def)

lemma py_rstrip_Cons_word: "\<not> is_space c \<Longrightarrow> py_rstrip (c # s) = c # py_rstrip s"
  by (simp add: py_rstrip_def dropWhile_append3)

lemma py_rstrip_Cons_space:
  "is_space c \<Longrightarrow> py_rstrip (c # s) = (if py_rstrip s = [] then [] else c # py_rstrip s)"
  by (auto simp add: py_rstrip_def dropWhile_append dropWhile_eq_Nil_conv)

lemma py_rstrip_idem: "py_rstrip (py_rstrip s) = py_rstrip s"
  by (simp add: py_rstrip_def)

lemma py_rstrip_append_word:
  "\<forall>c \<in> set w. \<not> is_space c \<Longrightarrow> py_rstrip (w @ s) = w @ py_rstrip s"
  by (induction w) (simp_all add: py_rstrip_Cons_word)

lemma is_space_space: "is_space (CHR '' '')"
  by (simp add: is_space_def)

lemma join_scan:
  "w \<noteq> [] \<Longrightarrow> py_join '' '' (split_scan w cs) = w @ py_rstrip (collapse_runs cs)"
proof (induction cs arbitrary: w rule: length_induct)
  case (1 cs)
  show ?case
  proof (cases cs)
    case Nil
    with 1(2) show ?thesis by (simp add: py_rstrip_Nil)
  next
    case (Cons c cs')
    show ?thesis
    proof (cases "is_space c")
      case False
      have "py_join '' '' (split_scan (w @ [c]) cs') = (w @ [c]) @ py_rstrip (collapse_runs cs')"
        using 1(1) Cons by simp
      with False show ?thesis by (simp add: Cons py_rstrip_Cons_word)
    next
      case True
      let ?r = "dropWhile is_space cs'"
      have sk: "split_scan w cs = w # split_scan [] ?r"
        using True 1(2) split_scan_skip[of cs'] by (simp add: Cons)
      have co: "collapse_runs cs = CHR '' '' # collapse_runs ?r"
        using True by (simp add: Cons)
      show ?thesis
      proof (cases ?r)
        case Nil
        show ?thesis
          unfolding sk co Nil
          by (simp add: py_rstrip_Cons_space is_space_space py_rstrip_Nil)
      next
        case (Cons d ds)
        then have d: "\<not> is_space d"
          by (metis dropWhile_eq_Cons_conv)
        have "length ds < length cs"
          using length_dropWhile_le[of is_space cs'] Cons \<open>cs = c # cs'\<close> by simp
        then have IH: "py_join '' '' (split_scan [d] ds) = [d] @ py_rstrip (collapse_runs ds)"
          using 1(1) by simp
        have ne: "split_scan [d] ds \<noteq> []" by (simp add: split_scan_nonempty)
        have "split_scan [] ?r = split_scan [d] ds" using d by (simp add: Cons)
        then have "py_join '' '' (split_scan w cs) = w @ '' '' @ [d] @ py_rstrip (collapse_runs ds)"
          using sk IH ne by (cases "split_scan [d] ds") simp_all
        moreover have "py_rstrip (collapse_runs cs) = CHR '' '' # d # py_rstrip (collapse_runs ds)"
          using d by (simp add: co Cons py_rstrip_Cons_space py_rstrip_Cons_word is_space_space)
        ultimately show ?thesis by simp
      qed
    qed
  qed
qed

lemma collapse_runs_lstrip:
  "py_lstrip (collapse_runs cs) = collapse_runs (dropWhile is_space cs)"
proof (cases cs)
  case Nil
  then show ?thesis by (simp add: py_lstrip_def)
next
  case (Cons c cs')
  show ?thesis
  proof (cases "is_space c")
    case False
    then show ?thesis by (simp add: Cons py_lstrip_def)
  next
    case True
    have "dropWhile is_space (collapse_runs (dropWhile is_space cs')) = collapse_runs (dropWhile is_space cs')"
    proof (cases "dropWhile is_space cs'")
      case Nil
      show ?thesis unfolding Nil by simp
    next
      case (Cons d ds)
      then have "\<not> is_space d" by (metis dropWhile_eq_Cons_conv)
      then show ?thesis unfolding Cons by simp
    qed
    with True show ?thesis by (simp add: Cons py_lstrip_def is_space_space)
  qed
qed

lemma clean_text_join:
  "py_join '' '' (py_split t) = spec_clean t"
proof (cases "dropWhile is_space t")
  case Nil
  have "py_split t = []" using split_scan_skip[of t] Nil by (simp add: py_split_def)
  then show ?thesis
    using collapse_runs_lstrip[of t] Nil by (simp add: spec_clean_def py_strip_def py_rstrip_Nil)
next
  case (Cons d ds)
  then have d: "\<not> is_space d" by (metis dropWhile_eq_Cons_conv)
  have "py_split t = split_scan [d] ds"
    using split_scan_skip[of t] Cons d by (simp add: py_split_def)
  then have "py_join '' '' (py_split t) = [d] @ py_rstrip (collapse_runs ds)"
    using join_scan[of "[d]" ds] by simp
  moreover have "spec_clean t = py_rstrip (collapse_runs (d # ds))"
    using collapse_runs_lstrip[of t] Cons by (simp add: spec_clean_def py_strip_def)
  ultimately show ?thesis using d by (simp add: py_rstrip_Cons_word)
qed

lemma py_strip_spec_clean: "py_strip (spec_clean t) = spec_clean t"
proof -
  have "py_lstrip (py_rstrip s) = py_rstrip s" if "s = [] \<or> \<not> is_space (hd s)" for s
  proof (cases s)
    case Nil
    then show ?thesis by (simp add: py_rstrip_Nil py_lstrip_def)
  next
    case (Cons c s')
    with that have "\<not> is_space c" by simp
    then show ?thesis by (simp add: Cons py_rstrip_Cons_word py_lstrip_def)
  qed
  moreover have "py_lstrip (collapse_runs t) = [] \<or> \<not> is_space (hd (py_lstrip (collapse_runs t)))"
    unfolding py_lstrip_def by (metis dropWhile_eq_Cons_conv list.exhaust list.sel(1))
  ultimately show ?thesis
    by (simp add: spec_clean_def py_strip_def py_rstrip_idem)
qed

lemma clean_text_refines: "clean_text t = spec_clean t"
  by (simp add: clean_text_def clean_text_join py_strip_spec_clean)


lemma split_scan_words:
  "\<forall>c \<in> set w. \<not> is_space c \<Longrightarrow>
   \<forall>v \<in> set (split_scan w cs). v \<noteq> [] \<and> (\<forall>c \<in> set v. \<not> is_space c)"
proof (induction cs arbitrary: w)
  case Nil
  then show ?case by simp
next
  case (Cons c cs)
  show ?case
  proof (cases "is_space c")
    case True
    from Cons.IH[of "[]"] have "\<forall>v \<in> set (split_scan [] cs). v \<noteq> [] \<and> (\<forall>c \<in> set v. \<not> is_space c)"
      by simp
    with True Cons.prems show ?thesis by (cases "w = []") simp_all
  next
    case False
    with Cons.prems have "\<forall>c \<in> set (w @ [c]). \<not> is_space c" by simp
    from Cons.IH[OF this] False show ?thesis by simp
  qed
qed

lemma split_scan_append_word:
  "\<forall>c \<in> set u. \<not> is_space c \<Longrightarrow> split_scan w (u @ cs) = split_scan (w @ u) cs"
  by (induction u arbitrary: w) auto

lemma split_scan_join:
  "\<forall>v \<in> set ws. v \<noteq> [] \<and> (\<forall>c \<in> set v. \<not> is_space c) \<Longrightarrow>
   split_scan [] (py_join '' '' ws) = ws"
proof (induction ws)
  case Nil
  then show ?case by simp
next
  case (Cons x xs)
  then have x: "x \<noteq> []" "\<forall>c \<in> set x. \<not> is_space c" by simp_all
  show ?case
  proof (cases xs)
    case Nil
    then show ?thesis using split_scan_append_word[OF x(2), of "[]" "[]"] x(1) by simp
  next
    case (Cons y ys)
    have "split_scan [] (x @ '' '' @ py_join '' '' xs) = split_scan x ('' '' @ py_join '' '' xs)"
      using split_scan_append_word[OF x(2), of "[]"] by simp
    also have "\<dots> = x # split_scan [] (py_join '' '' xs)"
      using x(1) by (simp add: is_space_space)
    also have "split_scan [] (py_join '' '' xs) = xs"
      using Cons.IH Cons.prems by simp
    finally show ?thesis by (simp add: Cons)
  qed
qed

text \<open>
  Claim C7. \<open>clean_text\<close> returns what the contract asks for: every run of whitespace
  (line feeds included) collapsed to one space and the whitespace at both ends removed
  (\<open>spec_clean\<close>). The words of the result are the words of the input in the same order,
  the empty text stays empty, and \<^verbatim>\<open>clean("a   b\n\nc")\<close> is \<^verbatim>\<open>"a b c"\<close>.
\<close>

theorem clean_text_collapses_whitespace:
  "clean_text t = spec_clean t \<and>
   py_split (clean_text t) = py_split t \<and>
   clean_text [] = [] \<and>
   clean_text ''a   b\<newline>\<newline>c'' = ''a b c''"
proof -
  have r: "clean_text t = spec_clean t" for t by (rule clean_text_refines)
  have j: "clean_text t = py_join '' '' (py_split t)"
    by (simp add: r clean_text_join)
  have "py_split (py_join '' '' (py_split t)) = py_split t"
    unfolding py_split_def
    by (rule split_scan_join) (rule split_scan_words, simp)
  then have w: "py_split (clean_text t) = py_split t" by (simp add: j)
  have e: "clean_text [] = []"
    by (simp add: clean_text_def py_split_def py_strip_def py_lstrip_def py_rstrip_def)
  have x: "clean_text ''a   b\<newline>\<newline>c'' = ''a b c''" by code_simp
  from r w e x show ?thesis by blast
qed


section \<open>Context assembly\<close>

lemma py_join_Cons: "py_join sep (x # xs) = x @ concat (map (\<lambda>y. sep @ y) xs)"
  by (induction xs arbitrary: x) auto

lemma py_slice_to_take: "0 \<le> j \<Longrightarrow> py_slice_to xs j = take (nat j) xs"
  by (auto simp add: py_slice_to_def slice_index_def min_def)

lemma truncation_marker_length: "length truncation_marker = 24"
  by (simp add: truncation_marker_def)

text \<open>
  Claim C5. The context is the document texts joined with a blank line between them.
  If the joined text has more than 3000 characters the result is its first 3000
  characters followed by the truncation marker, so it has \<open>3000 + length truncation_marker\<close>
  characters and ends with the marker; in every case the length is at most that. For
  no documents the result is the empty string.
\<close>

theorem assemble_context_truncates:
  "assemble_context pdf_texts =
     (if length (py_join ''\<newline>\<newline>'' pdf_texts) > 3000
      then take 3000 (py_join ''\<newline>\<newline>'' pdf_texts) @ truncation_marker
      else py_join ''\<newline>\<newline>'' pdf_texts) \<and>
   py_join ''\<newline>\<newline>'' pdf_texts =
     (case pdf_texts of [] \<Rightarrow> [] | d # ds \<Rightarrow> d @ concat (map (\<lambda>y. ''\<newline>\<newline>'' @ y) ds)) \<and>
   length (assemble_context pdf_texts) \<le> 3000 + length truncation_marker \<and>
   (length (py_join ''\<newline>\<newline>'' pdf_texts) > 3000 \<longrightarrow>
      length (assemble_context pdf_texts) = 3000 + length truncation_marker \<and>
      (\<exists>p. length p = 3000 \<and> assemble_context pdf_texts = p @ truncation_marker)) \<and>
   assemble_context [] = []"
proof -
  let ?j = "py_join ''\<newline>\<newline>'' pdf_texts"
  have jn: "join_pdf_texts pdf_texts = ?j"
    by (cases pdf_texts) (simp_all add: join_pdf_texts_def)
  have eq: "assemble_context pdf_texts =
     (if length ?j > 3000 then take 3000 ?j @ truncation_marker else ?j)"
    by (simp add: assemble_context_def truncate_context_def jn py_slice_to_take)
  have shape: "?j = (case pdf_texts of [] \<Rightarrow> [] | d # ds \<Rightarrow> d @ concat (map (\<lambda>y. ''\<newline>\<newline>'' @ y) ds))"
    by (cases pdf_texts) (simp_all only: py_join.simps(1) py_join_Cons list.case)
  have len: "length (assemble_context pdf_texts) \<le> 3000 + length truncation_marker"
    by (simp add: eq)
  have tr: "length (assemble_context pdf_texts) = 3000 + length truncation_marker \<and>
      (\<exists>p. length p = 3000 \<and> assemble_context pdf_texts = p @ truncation_marker)"
    if "length ?j > 3000"
  proof -
    from that have a: "assemble_context pdf_texts = take 3000 ?j @ truncation_marker"
      by (simp add: eq)
    from that have l: "length (take 3000 ?j) = 3000" by simp
    from a l show ?thesis by auto
  qed
  have emp: "assemble_context [] = []"
    by (simp add: assemble_context_def truncate_context_def join_pdf_texts_def)
  from eq shape len tr emp show ?thesis by blast
qed

theorem assemble_context_truncates_witness:
  "length (py_join ''\<newline>\<newline>'' [replicate 5000 (CHR ''x'')]) > 3000 \<and>
   length (assemble_context [replicate 5000 (CHR ''x'')]) = 3000 + length truncation_marker \<and>
   (\<exists>p. length p = 3000 \<and> assemble_context [replicate 5000 (CHR ''x'')] = p @ truncation_marker)"
  using assemble_context_truncates[of "[replicate 5000 (CHR ''x'')]"] by simp

section \<open>The message list of ask\_question\<close>

lemma py_slice_from_last: "0 < k \<Longrightarrow> py_slice_from xs (- int k) = drop (length xs - k) xs"
  by (auto simp add: py_slice_from_def slice_index_def max_def nat_diff_distrib')

text \<open>
  Claim C10. The list sent by \<^verbatim>\<open>ask_question\<close> is the system prompt, one user message
  with the PDF context, the last 10 entries of the chat history in their order (all of
  them when there are at most 10, none for \<open>None\<close>), and a final user message with the
  question.
\<close>

theorem ask_question_messages_shape:
  "ask_question_messages question pdf_context chat_history =
     [\<lparr>role = ''system'', content = get_system_prompt\<rparr>,
      \<lparr>role = ''user'', content = ''PDF Content:\<newline>\<newline>'' @ pdf_context\<rparr>] @
     drop (length (case chat_history of None \<Rightarrow> [] | Some hist \<Rightarrow> hist) - 10)
       (case chat_history of None \<Rightarrow> [] | Some hist \<Rightarrow> hist) @
     [\<lparr>role = ''user'', content = question\<rparr>] \<and>
   length (drop (length (case chat_history of None \<Rightarrow> [] | Some hist \<Rightarrow> hist) - 10)
       (case chat_history of None \<Rightarrow> [] | Some hist \<Rightarrow> hist)) \<le> 10"
proof (cases chat_history)
  case None
  then show ?thesis by (simp add: ask_question_messages_def)
next
  case (Some hist)
  have "py_slice_from hist (- 10) = drop (length hist - 10) hist"
    using py_slice_from_last[of 10 hist] by simp
  with Some show ?thesis by (cases "hist = []") (simp_all add: ask_question_messages_def)
qed

section \<open>ConversationManager\<close>

lemma py_slice_from_zero: "py_slice_from xs 0 = xs"
  by (simp add: py_slice_from_def slice_index_def)

lemma py_slice_from_map: "py_slice_from (map g xs) i = map g (py_slice_from xs i)"
  by (simp add: py_slice_from_def drop_map)

lemma set_py_slice_from: "set (py_slice_from xs i) \<subseteq> set xs"
  by (simp add: py_slice_from_def set_drop_subset)

lemma stored_add_message:
  assumes "allocated (self, h)"
  shows "stored (add_message r c (self, h)) =
     (if int (length (stored (self, h) @ [\<lparr>role = r, content = c\<rparr>])) > max_history self
      then py_slice_from (stored (self, h) @ [\<lparr>role = r, content = c\<rparr>]) (- max_history self)
      else stored (self, h) @ [\<lparr>role = r, content = c\<rparr>])"
proof -
  let ?d = "next_free h"
  let ?xs = "lists h (messages self)"
  let ?D = "(dicts h)(?d := \<lparr>role = r, content = c\<rparr>)"
  from assms have a: "messages self < ?d" and b: "\<forall>a \<in> set ?xs. a < ?d"
    by (simp_all add: allocated_def)
  have old: "map ?D ?xs = map (dicts h) ?xs"
    using b by (intro map_cong) auto
  have new: "map ?D (?xs @ [?d]) = stored (self, h) @ [\<lparr>role = r, content = c\<rparr>]"
    using old by (simp add: stored_def read_list_def)
  have "stored (add_message r c (self, h)) =
     (if int (length (?xs @ [?d])) > max_history self
      then map ?D (py_slice_from (?xs @ [?d]) (- max_history self))
      else map ?D (?xs @ [?d]))"
    using a
    by (simp add: add_message_def stored_def read_list_def update_list_def new_list_def
        new_dict_def Let_def)
  also have "\<dots> =
     (if int (length (map ?D (?xs @ [?d]))) > max_history self
      then py_slice_from (map ?D (?xs @ [?d])) (- max_history self)
      else map ?D (?xs @ [?d]))"
    by (simp only: py_slice_from_map length_map)
  finally show ?thesis unfolding new .
qed


lemma max_history_add_message:
  "max_history (fst (add_message r c (self, h))) = max_history self"
  by (simp add: add_message_def update_list_def new_list_def new_dict_def Let_def)

lemma stored_init: "stored (init cap h) = []"
  by (simp add: init_def stored_def read_list_def new_list_def)

lemma max_history_init: "max_history (fst (init cap h)) = cap"
  by (simp add: init_def new_list_def)

text \<open>
  The list of a manager built by \<open>init\<close> and its elements are allocated, and they stay
  so.
\<close>

lemma allocated_init: "allocated (init cap h)"
  by (simp add: allocated_def init_def new_list_def)

lemma allocated_add_message:
  assumes "allocated st"
  shows "allocated (add_message r c st)"
proof -
  obtain self h where st: "st = (self, h)" by (cases st)
  let ?d = "next_free h"
  let ?xs = "lists h (messages self)"
  from assms have a: "messages self < ?d" and b: "\<forall>a \<in> set ?xs. a < ?d"
    by (simp_all add: allocated_def st)
  have "\<forall>a \<in> set (py_slice_from (?xs @ [?d]) (- max_history self)). a < Suc (Suc ?d)"
    using set_py_slice_from[of "?xs @ [?d]" "- max_history self"] b by fastforce
  moreover have "\<forall>a \<in> set (?xs @ [?d]). a < Suc ?d"
    using b by fastforce
  ultimately show ?thesis
    using a
    by (simp add: st allocated_def add_message_def update_list_def new_list_def new_dict_def
        Let_def)
qed

lemma allocated_add_all: "allocated st \<Longrightarrow> allocated (add_all ms st)"
proof (induction ms arbitrary: st)
  case Nil
  then show ?case by simp
next
  case (Cons m ms)
  then show ?case by (cases m) (simp add: allocated_add_message)
qed

lemma allocated_get_history: "allocated (self, h) \<Longrightarrow> allocated (self, snd (get_history (self, h)))"
  by (auto simp add: allocated_def get_history_def new_list_def less_Suc_eq)

text \<open>
  Claim C4 (the history never exceeds \<open>max_history\<close>) against the code: a manager with
  \<open>max_history = 0\<close> keeps the message it is given. The trim of line 250 is
  \<^verbatim>\<open>self.messages[-0:]\<close>, which is the whole list.
\<close>

theorem add_message_cap_zero_keeps_message:
  "stored (add_message ''user'' ''hi'' (init 0 empty_heap)) = [\<lparr>role = ''user'', content = ''hi''\<rparr>]"
proof -
  obtain self h where st: "init 0 empty_heap = (self, h)" by (cases "init 0 empty_heap")
  have a: "allocated (self, h)" using allocated_init[of 0 empty_heap] by (simp add: st)
  have s: "stored (self, h) = []" using stored_init[of 0 empty_heap] by (simp add: st)
  have m: "max_history self = 0" using max_history_init[of 0 empty_heap] by (simp add: st)
  show ?thesis
    unfolding st stored_add_message[OF a] s m by (simp add: py_slice_from_zero)
qed

text \<open>
  With \<open>max_history = 0\<close> no message is ever evicted: the history is everything that was
  added.
\<close>

lemma stored_add_message_zero:
  assumes "allocated (self, h)" and "max_history self = 0"
  shows "stored (add_message r c (self, h)) = stored (self, h) @ [\<lparr>role = r, content = c\<rparr>]"
  unfolding stored_add_message[OF assms(1)] assms(2) by (simp add: py_slice_from_zero)

lemma add_all_cap_zero:
  "allocated st \<Longrightarrow> max_history (fst st) = 0 \<Longrightarrow>
   stored (add_all ms st) = stored st @ map (\<lambda>(r, c). \<lparr>role = r, content = c\<rparr>) ms"
proof (induction ms arbitrary: st)
  case Nil
  then show ?case by simp
next
  case (Cons m ms)
  obtain r c where m: "m = (r, c)" by (cases m)
  obtain self h where st: "st = (self, h)" by (cases st)
  have z: "max_history (fst (add_message r c st)) = 0"
    using Cons.prems by (simp add: st max_history_add_message)
  have al: "allocated (add_message r c st)"
    using Cons.prems(1) by (rule allocated_add_message)
  have "stored (add_message r c st) = stored st @ [\<lparr>role = r, content = c\<rparr>]"
    using stored_add_message_zero[of self h r c] Cons.prems by (simp add: st)
  with Cons.IH[OF al z] show ?case by (simp add: m)
qed

text \<open>
  For a positive cap the trim works: after any sequence of calls on a fresh manager
  the history holds the last \<open>cap\<close> messages added, in the order they were added.
\<close>

lemma stored_add_message_pos:
  assumes "0 < cap" and "max_history self = int cap" and "allocated (self, h)"
  shows "stored (add_message r c (self, h)) =
           drop (Suc (length (stored (self, h))) - cap) (stored (self, h) @ [\<lparr>role = r, content = c\<rparr>])"
  unfolding stored_add_message[OF assms(3)]
  using assms(1,2) py_slice_from_last[of cap "stored (self, h) @ [\<lparr>role = r, content = c\<rparr>]"]
  by auto

lemma add_all_stored:
  assumes "0 < cap"
  shows "allocated st \<Longrightarrow> max_history (fst st) = int cap \<Longrightarrow> length (stored st) \<le> cap \<Longrightarrow>
     stored (add_all ms st) =
       drop (length (stored st) + length ms - cap)
         (stored st @ map (\<lambda>(r, c). \<lparr>role = r, content = c\<rparr>) ms) \<and>
     max_history (fst (add_all ms st)) = int cap"
proof (induction ms arbitrary: st)
  case Nil
  then show ?case by simp
next
  case (Cons m ms)
  obtain r c where m: "m = (r, c)" by (cases m)
  obtain self h where st: "st = (self, h)" by (cases st)
  let ?st' = "add_message r c st"
  have al: "allocated ?st'" using Cons.prems(1) by (rule allocated_add_message)
  have cap': "max_history (fst ?st') = int cap"
    using Cons.prems(2) by (simp add: st max_history_add_message)
  have sto: "stored ?st' = drop (Suc (length (stored st)) - cap) (stored st @ [\<lparr>role = r, content = c\<rparr>])"
    using stored_add_message_pos[OF assms, of self h r c] Cons.prems(1,2) by (simp add: st)
  then have len: "length (stored ?st') \<le> cap" using Cons.prems(3) by simp
  from Cons.IH[OF al cap' len]
  have IH: "stored (add_all ms ?st') =
       drop (length (stored ?st') + length ms - cap)
         (stored ?st' @ map (\<lambda>(r, c). \<lparr>role = r, content = c\<rparr>) ms)"
    and capf: "max_history (fst (add_all ms ?st')) = int cap" by simp_all
  show ?case
  proof (cases "Suc (length (stored st)) \<le> cap")
    case True
    with sto have "stored ?st' = stored st @ [\<lparr>role = r, content = c\<rparr>]" by simp
    with IH capf show ?thesis by (simp add: m)
  next
    case False
    with Cons.prems(3) have full: "length (stored st) = cap" by simp
    with sto have s1: "stored ?st' = drop 1 (stored st @ [\<lparr>role = r, content = c\<rparr>])" by simp
    define X where "X = stored st @ [\<lparr>role = r, content = c\<rparr>]"
    define M where "M = map (\<lambda>(r, c). \<lparr>role = r, content = c\<rparr>) ms"
    have lenX: "length X = Suc cap" using full by (simp add: X_def)
    then have ne: "X \<noteq> []" by auto
    have s1': "stored ?st' = drop 1 X" using s1 by (simp add: X_def)
    then have l1: "length (stored ?st') = cap" using lenX by simp
    have "stored (add_all ms ?st') = drop (length ms) (drop 1 X @ M)"
      using IH l1 unfolding s1' M_def by simp
    also have "drop 1 X @ M = drop 1 (X @ M)"
      using ne by (cases X) simp_all
    also have "drop (length ms) (drop 1 (X @ M)) = drop (Suc (length ms)) (X @ M)"
      by (simp del: drop_append)
    finally have "stored (add_all ms ?st') = drop (Suc (length ms)) (X @ M)" .
    moreover have "stored st @ map (\<lambda>(r, c). \<lparr>role = r, content = c\<rparr>) (m # ms) = X @ M"
      by (simp add: X_def M_def m)
    moreover have "length (stored st) + length (m # ms) - cap = Suc (length ms)"
      using full by simp
    moreover have "add_all (m # ms) st = add_all ms ?st'" by (simp add: m)
    ultimately show ?thesis using capf by simp
  qed
qed

lemma add_all_bounded:
  assumes "0 < cap"
  shows "length (stored (add_all ms (init (int cap) h))) = min cap (length ms) \<and>
         stored (add_all ms (init (int cap) h)) =
           drop (length ms - cap) (map (\<lambda>(r, c). \<lparr>role = r, content = c\<rparr>) ms)"
  using add_all_stored[OF assms, of "init (int cap) h" ms]
  by (simp add: stored_init max_history_init allocated_init)




end
